theory Spec2Isabelle
  imports Main
begin

section \<open>URLs (net/url as used by the crawler)\<close>

text \<open>
  The crawler works on values of Go's \<^verbatim>\<open>url.URL\<close>. The record has its fields; the
  user information is kept in the form \<^verbatim>\<open>Userinfo.String\<close> prints, and host, path and
  fragment in their escaped form, so that printing them is copying them.
\<close>

record URL =
  Scheme :: string
  Opaque :: string
  User :: "string option"
  Host :: string
  Path :: string
  ForceQuery :: bool
  OmitHost :: bool
  RawQuery :: string
  Fragment :: string

text \<open>
  \<^verbatim>\<open>URL.String\<close> of net/url: scheme and colon; then either the opaque part, or the
  double slash, the user information and the host, a slash before a relative path when a
  host is present, the \<^verbatim>\<open>./\<close> guard of RFC 3986 section 4.2 and the path; then the
  query after a question mark and the fragment after a hash sign.
\<close>

definition String :: "URL \<Rightarrow> string" where
  "String u =
     (let buf1 = (if Scheme u \<noteq> [] then Scheme u @ '':'' else []);
          buf2 =
            (if Opaque u \<noteq> [] then buf1 @ Opaque u
             else
               (let buf3 = buf1 @
                      (if Scheme u \<noteq> [] \<or> Host u \<noteq> [] \<or> User u \<noteq> None
                       then (if OmitHost u \<and> Host u = [] \<and> User u = None then []
                             else (if Host u \<noteq> [] \<or> Path u \<noteq> [] \<or> User u \<noteq> None
                                   then ''//'' else [])
                                  @ (case User u of None \<Rightarrow> [] | Some ui \<Rightarrow> ui @ ''@'')
                                  @ Host u)
                       else []);
                    buf4 = buf3 @
                      (if Path u \<noteq> [] \<and> hd (Path u) \<noteq> CHR ''/'' \<and> Host u \<noteq> []
                       then ''/'' else []);
                    buf5 = buf4 @
                      (if buf4 = [] \<and>
                          CHR '':'' \<in> set (takeWhile (\<lambda>c. c \<noteq> CHR ''/'') (Path u))
                       then ''./'' else [])
                in buf5 @ Path u))
      in buf2
           @ (if ForceQuery u \<or> RawQuery u \<noteq> [] then ''?'' @ RawQuery u else [])
           @ (if Fragment u \<noteq> [] then ''#'' @ Fragment u else []))"

text \<open>
  \<^verbatim>\<open>URL.Hostname\<close> of net/url: the host without a valid port (a colon followed by digits
  only, after the last colon) and without the square brackets of an IPv6 literal.
\<close>

definition validOptionalPort :: "string \<Rightarrow> bool" where
  "validOptionalPort port =
     (if port = [] then True
      else if hd port \<noteq> CHR '':'' then False
      else list_all (\<lambda>b. b \<in> set ''0123456789'') (tl port))"

definition Hostname :: "URL \<Rightarrow> string" where
  "Hostname u =
     (let hostPort = Host u;
          host = (if CHR '':'' \<in> set hostPort \<and>
                     validOptionalPort
                       (CHR '':'' # rev (takeWhile (\<lambda>c. c \<noteq> CHR '':'') (rev hostPort)))
                  then rev (tl (dropWhile (\<lambda>c. c \<noteq> CHR '':'') (rev hostPort)))
                  else hostPort)
      in if host \<noteq> [] \<and> hd host = CHR ''['' \<and> last host = CHR '']''
         then butlast (tl host) else host)"

text \<open>\<^verbatim>\<open>strings.HasSuffix\<close>.\<close>

definition HasSuffix :: "string \<Rightarrow> string \<Rightarrow> bool" where
  "HasSuffix s sfx = (length sfx \<le> length s \<and> drop (length s - length sfx) s = sfx)"

section \<open>The URL storage (urlstorage.go)\<close>

text \<open>
  \<^verbatim>\<open>tUrlStorage\<close>: the status map (\<open>True\<close> is used), the map of URL objects and the queue
  of keys still to be handed out. Every method takes the lock for its whole body, so a method
  call is one atomic transition of the record.
\<close>

record tUrlStorage =
  urlStatus :: "string \<rightharpoonup> bool"
  urlObjects :: "string \<rightharpoonup> URL"
  queue :: "string list"

definition newUrlStorage :: tUrlStorage where
  "newUrlStorage = \<lparr>urlStatus = Map.empty, urlObjects = Map.empty, queue = []\<rparr>"

text \<open>\<^verbatim>\<open>add\<close>; the argument is a pointer, \<open>None\<close> is \<^verbatim>\<open>nil\<close>.\<close>

definition add :: "URL option \<Rightarrow> tUrlStorage \<Rightarrow> bool \<times> tUrlStorage" where
  "add uo us =
     (case uo of
        None \<Rightarrow> (False, us)
      | Some u \<Rightarrow>
          (let key = String u in
           if urlStatus us key \<noteq> None then (False, us)
           else (True, us\<lparr>urlObjects := (urlObjects us)(key \<mapsto> u),
                            urlStatus := (urlStatus us)(key \<mapsto> False),
                            queue := queue us @ [key]\<rparr>)))"

text \<open>Reading a Go \<^verbatim>\<open>map[string]bool\<close> at a missing key gives \<^verbatim>\<open>false\<close>.\<close>

definition status_of :: "tUrlStorage \<Rightarrow> string \<Rightarrow> bool" where
  "status_of us key = (case urlStatus us key of None \<Rightarrow> False | Some b \<Rightarrow> b)"

text \<open>
  \<^verbatim>\<open>use\<close>: the loop over the queue from index \<open>i\<close>. The first key whose status is not used
  is marked used, its queue slot is overwritten by the last element and the queue is cut by
  one; the stored pointer is returned.
\<close>

function use_from :: "tUrlStorage \<Rightarrow> nat \<Rightarrow> (URL option \<times> bool) \<times> tUrlStorage" where
  "use_from us i =
     (if i < length (queue us) then
        (if \<not> status_of us (queue us ! i) then
           ((urlObjects us (queue us ! i), True),
            us\<lparr>urlStatus := (urlStatus us)(queue us ! i \<mapsto> True),
               queue := butlast ((queue us)[i := last (queue us)])\<rparr>)
         else use_from us (Suc i))
      else ((None, False), us))"
  by pat_completeness auto
termination
  by (relation "measure (\<lambda>(us, i). length (queue us) - i)") auto

declare use_from.simps [simp del]

definition use :: "tUrlStorage \<Rightarrow> (URL option \<times> bool) \<times> tUrlStorage" where
  "use us = use_from us 0"

text \<open>
  Ranging over a Go map visits every key once, in an order the language leaves open:
  \<open>iterates m ks\<close> says that \<open>ks\<close> is such an order.
\<close>

definition iterates :: "('k \<rightharpoonup> 'v) \<Rightarrow> 'k list \<Rightarrow> bool" where
  "iterates m ks = (distinct ks \<and> set ks = dom m)"

text \<open>\<^verbatim>\<open>getAllUrls\<close>: the stored pointers, in the order \<open>ks\<close> of the range loop.\<close>

definition getAllUrls :: "tUrlStorage \<Rightarrow> string list \<Rightarrow> URL list" where
  "getAllUrls us ks = List.map_filter (urlObjects us) ks"

definition check :: "URL option \<Rightarrow> tUrlStorage \<Rightarrow> bool \<times> bool" where
  "check uo us =
     (case uo of
        None \<Rightarrow> (False, False)
      | Some u \<Rightarrow> (urlStatus us (String u) \<noteq> None, status_of us (String u)))"

definition count :: "tUrlStorage \<Rightarrow> nat \<times> nat" where
  "count us = (card (dom (urlStatus us)), card {k. urlStatus us k = Some True})"

subsection \<open>Sequences of storage calls\<close>

datatype op = Add "URL option" | Use

datatype res = Added bool | Used "URL option" bool

fun apply_op :: "op \<Rightarrow> tUrlStorage \<Rightarrow> res \<times> tUrlStorage" where
  "apply_op (Add uo) us = (Added (fst (add uo us)), snd (add uo us))"
| "apply_op Use us = (Used (fst (fst (use us))) (snd (fst (use us))), snd (use us))"

fun run_ops :: "op list \<Rightarrow> tUrlStorage \<Rightarrow> res list \<times> tUrlStorage" where
  "run_ops [] us = ([], us)"
| "run_ops (p # ps) us =
     (let (r, us') = apply_op p us; (rs, us'') = run_ops ps us' in (r # rs, us''))"

text \<open>The states the storage can be in: a new storage, changed by its two writing methods.\<close>

inductive reachable :: "tUrlStorage \<Rightarrow> bool" where
  reach_new: "reachable newUrlStorage"
| reach_add: "reachable us \<Longrightarrow> reachable (snd (add uo us))"
| reach_use: "reachable us \<Longrightarrow> reachable (snd (use us))"

definition unused :: "tUrlStorage \<Rightarrow> string set" where
  "unused us = {k. urlStatus us k = Some False}"

definition used_keys :: "tUrlStorage \<Rightarrow> string set" where
  "used_keys us = {k. urlStatus us k = Some True}"

text \<open>The keys handed out by the successful \<^verbatim>\<open>use\<close> calls of a sequence, in call order.\<close>

fun acquired :: "res list \<Rightarrow> string list" where
  "acquired [] = []"
| "acquired (Used (Some u) True # rs) = String u # acquired rs"
| "acquired (r # rs) = acquired rs"

text \<open>The \<^verbatim>\<open>ok\<close> results of the \<^verbatim>\<open>use\<close> calls of a sequence, in call order.\<close>

fun succeeded :: "res list \<Rightarrow> bool list" where
  "succeeded [] = []"
| "succeeded (Used uo ok # rs) = ok # succeeded rs"
| "succeeded (r # rs) = succeeded rs"

text \<open>The canonical strings handed to \<^verbatim>\<open>add\<close> by a sequence of calls.\<close>

definition submitted :: "op list \<Rightarrow> string set" where
  "submitted ops = {k. \<exists>u. Add (Some u) \<in> set ops \<and> String u = k}"

fun use_n :: "nat \<Rightarrow> tUrlStorage \<Rightarrow> tUrlStorage" where
  "use_n 0 us = us"
| "use_n (Suc n) us = use_n n (snd (use us))"

definition us_inv :: "tUrlStorage \<Rightarrow> bool" where
  "us_inv us \<longleftrightarrow>
     distinct (queue us) \<and> set (queue us) = unused us \<and>
     dom (urlObjects us) = dom (urlStatus us) \<and>
     (\<forall>k u. urlObjects us k = Some u \<longrightarrow> String u = k)"

section \<open>Downloading a document (researchers/researcher.go)\<close>

datatype error =
    ErrUnknownFormat
  | ErrInvalidURL
  | ErrCreate
  | ErrCreateTemp
  | ErrRead
  | ErrTooLarge
  | ErrSeek
  | ErrGet
  | ErrStatus nat
  | ErrParse
  | ErrRemove

definition maxFileSize :: int where
  "maxFileSize = 100 * 1024 * 1024"

text \<open>
  A response body as an \<^verbatim>\<open>io.Reader\<close>: the bytes still to come, and whether the stream
  ends in a transport error instead of the end of file. \<^verbatim>\<open>Read\<close> with a buffer of
  \<open>n\<close> bytes hands over up to \<open>n\<close> of the bytes that are left; when none is left it
  reports the end of the stream.
\<close>

record reader =
  pending :: string
  broken :: bool

datatype rerr = EOF | ReadFailure

definition reader_Read :: "reader \<Rightarrow> nat \<Rightarrow> (string \<times> rerr option) \<times> reader" where
  "reader_Read r n =
     (if pending r = [] then (([], Some (if broken r then ReadFailure else EOF)), r)
      else ((take n (pending r), None), r\<lparr>pending := drop n (pending r)\<rparr>))"

text \<open>\<^verbatim>\<open>io.LimitedReader\<close> and its \<^verbatim>\<open>Read\<close>.\<close>

record LimitedReader =
  R :: reader
  N :: int

definition LimitedReader_Read ::
  "LimitedReader \<Rightarrow> nat \<Rightarrow> (string \<times> rerr option) \<times> LimitedReader" where
  "LimitedReader_Read l plen =
     (if N l \<le> 0 then (([], Some EOF), l)
      else (let p = (if int plen > N l then nat (N l) else plen);
                res = reader_Read (R l) p
            in (fst res, l\<lparr>R := snd res, N := N l - int (length (fst (fst res)))\<rparr>)))"

text \<open>
  The loop of \<^verbatim>\<open>io.Copy\<close> with a buffer of \<open>Suc k\<close> bytes: read, append what was read
  to the destination, stop at the first error of the source; the end of file is not reported
  as an error. Writing to the temporary file is taken to succeed.
\<close>

function copy_loop ::
  "nat \<Rightarrow> LimitedReader \<Rightarrow> string \<Rightarrow> (string \<times> rerr option) \<times> LimitedReader" where
  "copy_loop k l dst =
     (if snd (fst (LimitedReader_Read l (Suc k))) \<noteq> None
      then ((dst @ fst (fst (LimitedReader_Read l (Suc k))),
             (if snd (fst (LimitedReader_Read l (Suc k))) = Some EOF then None
              else snd (fst (LimitedReader_Read l (Suc k))))),
            snd (LimitedReader_Read l (Suc k)))
      else copy_loop k (snd (LimitedReader_Read l (Suc k)))
             (dst @ fst (fst (LimitedReader_Read l (Suc k)))))"
  by pat_completeness auto
termination
proof (relation "measure (\<lambda>(k, l, dst). length (pending (R l)))")
  show "wf (measure (\<lambda>(k, l, dst). length (pending (R l))))" by simp
next
  fix k :: nat and l :: LimitedReader and dst :: string
  assume a: "\<not> snd (fst (LimitedReader_Read l (Suc k))) \<noteq> None"
  have pos: "0 < N l" using a by (auto simp: LimitedReader_Read_def split: if_splits)
  have ne: "pending (R l) \<noteq> []"
    using a pos by (auto simp: LimitedReader_Read_def reader_Read_def Let_def split: if_splits)
  have "length (pending (R (snd (LimitedReader_Read l (Suc k))))) < length (pending (R l))"
    using pos ne by (auto simp: LimitedReader_Read_def reader_Read_def Let_def)
  then show "((k, snd (LimitedReader_Read l (Suc k)), dst @ fst (fst (LimitedReader_Read l (Suc k)))),
              (k, l, dst)) \<in> measure (\<lambda>(k, l, dst). length (pending (R l)))"
    by simp
qed

declare copy_loop.simps [simp del]

text \<open>
  \<^verbatim>\<open>io.Copy\<close> from a limited reader: the buffer has 32 KiB, or as many bytes as the
  limit leaves when that is less, and at least one.
\<close>

definition io_Copy :: "LimitedReader \<Rightarrow> (string \<times> rerr option) \<times> LimitedReader" where
  "io_Copy l =
     (let size = (if 32 * 1024 > N l then (if N l < 1 then 1 else nat (N l)) else 32 * 1024)
      in copy_loop (size - 1) l [])"

text \<open>
  What the copy amounts to: the bytes it copies, the error it reports and the count it leaves
  in the limited reader.
\<close>

definition copied_bytes :: "LimitedReader \<Rightarrow> string" where
  "copied_bytes l = take (nat (N l)) (pending (R l))"

definition copied_err :: "LimitedReader \<Rightarrow> rerr option" where
  "copied_err l =
     (if int (length (pending (R l))) < N l \<and> broken (R l) then Some ReadFailure else None)"

definition copied_left :: "LimitedReader \<Rightarrow> int" where
  "copied_left l = (if int (length (pending (R l))) < N l then N l - int (length (pending (R l))) else N l - int (nat (N l)))"

text \<open>
  The file system as the download sees it: the temporary files and their contents.
  \<^verbatim>\<open>os.CreateTemp\<close> is the parameter \<open>createTemp\<close>: it fails (\<open>None\<close>) or names the
  file it has created; \<^verbatim>\<open>Seek\<close> on the file fails when \<open>seekFails\<close> says so.
\<close>

record world =
  files :: "string \<rightharpoonup> string"

record response =
  StatusCode :: nat
  Body :: reader

text \<open>
  What lies outside the program during the analysis: the answers of the HTTP client
  (\<open>None\<close> is a transport error or the timeout), the temporary directory, the two parsers
  (pdfcpu's \<^verbatim>\<open>api.PDFInfo\<close>, and the reading of \<^verbatim>\<open>docProps/core.xml\<close> and
  \<^verbatim>\<open>docProps/app.xml\<close> out of the ZIP archive; \<open>None\<close> is their error), the JSON
  encoder, and whether the output file can be created.
\<close>

datatype kind = Pdf | Msox

record 'm researcher =
  kind :: kind
  docType :: string
  Url :: string
  metadata :: "'m option"

record 'm env =
  httpGet :: "string \<Rightarrow> response option"
  createTemp :: "(string \<rightharpoonup> string) \<Rightarrow> string option"
  seekFails :: bool
  PDFInfo :: "string \<Rightarrow> 'm option"
  msoxProperties :: "string \<Rightarrow> 'm option"
  Marshal :: "'m researcher \<Rightarrow> string"
  osCreateFails :: "string \<Rightarrow> bool"

text \<open>\<^verbatim>\<open>os.Remove\<close>: an error when the file is not there.\<close>

definition os_Remove :: "string \<Rightarrow> world \<Rightarrow> error option \<times> world" where
  "os_Remove name w =
     (if files w name = None then (Some ErrRemove, w)
      else (None, w\<lparr>files := (files w)(name := None)\<rparr>))"

text \<open>
  \<^verbatim>\<open>readCloserToReadSeekerFile\<close>. The result on success is the temporary file: its name
  and its content.
\<close>

definition readCloserToReadSeekerFile ::
  "'m env \<Rightarrow> reader \<Rightarrow> world \<Rightarrow> (error + string \<times> string) \<times> world" where
  "readCloserToReadSeekerFile env rc w =
     (case createTemp env (files w) of
        None \<Rightarrow> (Inl ErrCreateTemp, w)
      | Some tmpFile \<Rightarrow>
          (let copied = io_Copy \<lparr>R = rc, N = maxFileSize\<rparr>;
               limitedReader = snd copied;
               w1 = w\<lparr>files := (files w)(tmpFile \<mapsto> fst (fst copied))\<rparr>
           in if snd (fst copied) \<noteq> None then (Inl ErrRead, snd (os_Remove tmpFile w1))
              else if N limitedReader = 0 then (Inl ErrTooLarge, snd (os_Remove tmpFile w1))
              else if seekFails env then (Inl ErrSeek, snd (os_Remove tmpFile w1))
              else (Inr (tmpFile, fst (fst copied)), w1)))"

section \<open>The analyzers (researchers/pdf.go, researchers/msox.go)\<close>

definition allFileTypes :: "string \<rightharpoonup> kind" where
  "allFileTypes = [''pdf'' \<mapsto> Pdf, ''docx'' \<mapsto> Msox, ''xlsx'' \<mapsto> Msox, ''pptx'' \<mapsto> Msox]"


text \<open>
  \<^verbatim>\<open>New\<close>: a fresh analyzer of the type's kind. Calling the missing entry of the map for
  an unregistered type is a nil call, which panics: \<open>None\<close>.
\<close>

definition New :: "string \<Rightarrow> 'm researcher option" where
  "New st = (case allFileTypes st of
               None \<Rightarrow> None
             | Some k \<Rightarrow> Some \<lparr>kind = k, docType = [], Url = [], metadata = None\<rparr>)"

text \<open>
  \<^verbatim>\<open>tPdf.Do\<close>. The analyzer is changed in place, so it is returned with the error. The
  metadata strings copied from the result of \<^verbatim>\<open>api.PDFInfo\<close> are kept as the one value
  \<open>metadata\<close>.
\<close>

definition tPdf_Do ::
  "'m env \<Rightarrow> 'm researcher \<Rightarrow> string \<Rightarrow> world \<Rightarrow> (error option \<times> 'm researcher) \<times> world" where
  "tPdf_Do env pdf url w =
     (let pdf1 = pdf\<lparr>docType := ''pdf'', Url := url\<rparr> in
      case httpGet env url of
        None \<Rightarrow> ((Some ErrGet, pdf1), w)
      | Some resp \<Rightarrow>
          if StatusCode resp \<noteq> 200 then ((Some (ErrStatus (StatusCode resp)), pdf1), w)
          else (case readCloserToReadSeekerFile env (Body resp) w of
                  (Inl err, w1) \<Rightarrow> ((Some err, pdf1), w1)
                | (Inr (tmpFileName, content), w1) \<Rightarrow>
                    (case PDFInfo env content of
                       None \<Rightarrow> ((Some ErrParse, pdf1), w1)
                     | Some info \<Rightarrow>
                         (case os_Remove tmpFileName w1 of
                            (Some err, w2) \<Rightarrow> ((Some err, pdf1), w2)
                          | (None, w2) \<Rightarrow> ((None, pdf1\<lparr>metadata := Some info\<rparr>), w2)))))"

text \<open>
  \<^verbatim>\<open>tMsox.Do\<close>. Opening the ZIP archive and decoding the two property files is the
  parameter \<open>msoxProperties\<close>.
\<close>

definition tMsox_Do ::
  "'m env \<Rightarrow> 'm researcher \<Rightarrow> string \<Rightarrow> world \<Rightarrow> (error option \<times> 'm researcher) \<times> world" where
  "tMsox_Do env msox url w =
     (let msox1 = msox\<lparr>docType := ''msox'', Url := url\<rparr> in
      case httpGet env url of
        None \<Rightarrow> ((Some ErrGet, msox1), w)
      | Some resp \<Rightarrow>
          if StatusCode resp \<noteq> 200 then ((Some (ErrStatus (StatusCode resp)), msox1), w)
          else (case readCloserToReadSeekerFile env (Body resp) w of
                  (Inl err, w1) \<Rightarrow> ((Some err, msox1), w1)
                | (Inr (tmpFileName, content), w1) \<Rightarrow>
                    (case msoxProperties env content of
                       None \<Rightarrow> ((Some ErrParse, msox1), w1)
                     | Some props \<Rightarrow>
                         (case os_Remove tmpFileName w1 of
                            (Some err, w2) \<Rightarrow> ((Some err, msox1), w2)
                          | (None, w2) \<Rightarrow> ((None, msox1\<lparr>metadata := Some props\<rparr>), w2)))))"

text \<open>The method \<^verbatim>\<open>Do\<close> of the interface \<^verbatim>\<open>Researcher\<close>.\<close>

definition Do ::
  "'m env \<Rightarrow> 'm researcher \<Rightarrow> string \<Rightarrow> world \<Rightarrow> (error option \<times> 'm researcher) \<times> world" where
  "Do env eng url w = (case kind eng of Pdf \<Rightarrow> tPdf_Do env eng url w | Msox \<Rightarrow> tMsox_Do env eng url w)"

section \<open>The engine (engine.go)\<close>


record 'm tEngine =
  url :: URL
  urlStorage :: tUrlStorage
  docStorage :: "string \<rightharpoonup> 'm researcher"
  docTypes :: "string list"
  outputFileName :: string
  paramax :: int


definition isValidScheme :: "URL \<Rightarrow> bool" where
  "isValidScheme u = (Scheme u = ''http'' \<or> Scheme u = ''https'')"

subsection \<open>The analysis phase\<close>

text \<open>
  A call \<^verbatim>\<open>researchers.New(t).Do(url)\<close> as it is observed: the document type, the URL
  string, the error returned and the analyzer after the call.
\<close>

record 'm call =
  c_type :: string
  c_url :: string
  c_err :: "error option"
  c_eng :: "'m researcher"

text \<open>
  The engine during the analysis, the world outside it, and the calls of \<^verbatim>\<open>Do\<close> made so
  far.
\<close>

record 'm run_state =
  engine :: "'m tEngine"
  outside :: world
  calls :: "'m call list"

text \<open>
  The body of one goroutine of \<^verbatim>\<open>analyser\<close>: the loop over the document types, left at
  the first type whose suffix the URL string has. \<open>None\<close> is the panic of \<^verbatim>\<open>New\<close>.
\<close>

fun analyse_types :: "'m env \<Rightarrow> string list \<Rightarrow> URL \<Rightarrow> 'm run_state \<Rightarrow> 'm run_state option" where
  "analyse_types env [] u st = Some st"
| "analyse_types env (t # ts) u st =
     (if HasSuffix (String u) (''.'' @ t) then
        (case New t of
           None \<Rightarrow> None
         | Some eng \<Rightarrow>
             (let res = Do env eng (String u) (outside st);
                  err = fst (fst res);
                  eng' = snd (fst res)
              in Some (st\<lparr>engine :=
                            (if err = None
                             then (engine st)\<lparr>docStorage :=
                                    (docStorage (engine st))(String u \<mapsto> eng')\<rparr>
                             else engine st),
                          outside := snd res,
                          calls := calls st @
                            [\<lparr>c_type = t, c_url = String u, c_err = err, c_eng = eng'\<rparr>]\<rparr>)))
      else analyse_types env ts u st)"



text \<open>The first document type of the list whose suffix a string has.\<close>

definition first_match :: "string list \<Rightarrow> string \<Rightarrow> string option" where
  "first_match ts s = List.find (\<lambda>t. HasSuffix s (''.'' @ t)) ts"

text \<open>
  The calls of \<^verbatim>\<open>Do\<close> that first-match dispatch asks for, for a list of URLs: for each
  URL with a matching type one call, with the first such type.
\<close>

definition dispatched :: "string list \<Rightarrow> URL list \<Rightarrow> (string \<times> string) list" where
  "dispatched ts us =
     List.map_filter (\<lambda>u. map_option (\<lambda>t. (t, String u)) (first_match ts (String u))) us"


subsection \<open>The output phase\<close>

text \<open>
  The loop of \<^verbatim>\<open>output\<close> over the URLs, with the flag \<^verbatim>\<open>isFirst\<close> and the bytes written
  so far. \<^verbatim>\<open>OutJSON\<close> writes the JSON encoding of the analyzer.
\<close>

fun output_loop ::
  "('m researcher \<Rightarrow> string) \<Rightarrow> (string \<rightharpoonup> 'm researcher) \<Rightarrow> URL list \<Rightarrow> bool \<Rightarrow> string \<Rightarrow> string" where
  "output_loop js ds [] isFirst buf = buf"
| "output_loop js ds (u # us) isFirst buf =
     (case ds (String u) of
        None \<Rightarrow> output_loop js ds us isFirst buf
      | Some rr \<Rightarrow>
          output_loop js ds us False ((if \<not> isFirst then buf @ '','' else buf) @ js rr))"

text \<open>
  \<^verbatim>\<open>output\<close>: the error of \<^verbatim>\<open>os.Create\<close>, or the bytes written to the file or to the
  standard output; \<open>ks\<close> is the order of the range loop of \<^verbatim>\<open>getAllUrls\<close>.
\<close>

definition tEngine_output :: "'m env \<Rightarrow> string list \<Rightarrow> 'm tEngine \<Rightarrow> error + string" where
  "tEngine_output env ks e =
     (if outputFileName e \<noteq> [] \<and> osCreateFails env (outputFileName e) then Inl ErrCreate
      else Inr (output_loop (Marshal env) (docStorage e) (getAllUrls (urlStorage e) ks) True ''[''
                @ '']''))"

text \<open>The elements of a JSON array, separated by commas.\<close>

fun separated :: "string list \<Rightarrow> string" where
  "separated [] = []"
| "separated [x] = x"
| "separated (x # y # ys) = x @ '','' @ separated (y # ys)"

section \<open>Example inputs\<close>

definition ex_root :: URL where
  "ex_root = \<lparr>Scheme = ''https'', Opaque = [], User = None, Host = ''example.com'', Path = ''/'',
      ForceQuery = False, OmitHost = False, RawQuery = [], Fragment = []\<rparr>"

definition ex_page :: URL where
  "ex_page = \<lparr>Scheme = ''https'', Opaque = [], User = None, Host = ''example.com'', Path = ''/a.html'',
      ForceQuery = False, OmitHost = False, RawQuery = [], Fragment = []\<rparr>"

definition ex_pdf :: URL where
  "ex_pdf = \<lparr>Scheme = ''https'', Opaque = [], User = None, Host = ''example.com'', Path = ''/doc.pdf'',
      ForceQuery = False, OmitHost = False, RawQuery = [], Fragment = []\<rparr>"

definition ex_other :: URL where
  "ex_other = \<lparr>Scheme = ''https'', Opaque = [], User = None, Host = ''other.org'', Path = ''/b.pdf'',
      ForceQuery = False, OmitHost = False, RawQuery = [], Fragment = []\<rparr>"

definition ex_empty :: URL where
  "ex_empty = \<lparr>Scheme = [], Opaque = [], User = None, Host = [], Path = [],
      ForceQuery = False, OmitHost = False, RawQuery = [], Fragment = []\<rparr>"

definition ex_query :: URL where
  "ex_query = \<lparr>Scheme = ''https'', Opaque = [], User = None, Host = ''h'', Path = ''/doc.pdf'',
      ForceQuery = False, OmitHost = False, RawQuery = ''v=1'', Fragment = []\<rparr>"

definition ex_query_pdf :: URL where
  "ex_query_pdf = \<lparr>Scheme = ''https'', Opaque = [], User = None, Host = ''h'', Path = ''/doc.pdf'',
      ForceQuery = False, OmitHost = False, RawQuery = ''f=x.pdf'', Fragment = []\<rparr>"

definition ex_port :: URL where
  "ex_port = \<lparr>Scheme = ''https'', Opaque = [], User = None, Host = ''example.com:8443'',
      Path = ''/b.html'', ForceQuery = False, OmitHost = False, RawQuery = [], Fragment = []\<rparr>"

text \<open>
  A world in which the document \<^verbatim>\<open>https://example.com/doc.pdf\<close> is served with four bytes
  that the PDF parser accepts, every other request fails, and the output file cannot be
  created.
\<close>

definition ex_env :: "string env" where
  "ex_env = \<lparr>
     httpGet = (\<lambda>url. if url = ''https://example.com/doc.pdf''
                then Some \<lparr>StatusCode = 200, Body = \<lparr>pending = ''%PDF'', broken = False\<rparr>\<rparr>
                else None),
     createTemp = (\<lambda>fs. if fs ''readseeker-1'' = None then Some ''readseeker-1'' else None),
     seekFails = False,
     PDFInfo = (\<lambda>content. if content = ''%PDF'' then Some ''Title'' else None),
     msoxProperties = (\<lambda>content. None),
     Marshal = (\<lambda>r. ''{url:'' @ Url r @ ''}''),
     osCreateFails = (\<lambda>name. True)\<rparr>"



definition ex_engine :: "string tEngine" where
  "ex_engine = \<lparr>url = ex_root, urlStorage = newUrlStorage, docStorage = Map.empty,
     docTypes = [''docx'', ''pdf''], outputFileName = [], paramax = 2\<rparr>"

definition ex_storage :: tUrlStorage where
  "ex_storage = snd (add (Some ex_pdf) (snd (add (Some ex_page) newUrlStorage)))"

text \<open>A response whose body has one byte more than the limit, and a world that serves it.\<close>

definition ex_big :: response where
  "ex_big = \<lparr>StatusCode = 200,
             Body = \<lparr>pending = replicate (100 * 1024 * 1024 + 1) (CHR ''a''), broken = False\<rparr>\<rparr>"

definition ex_big_env :: "string env" where
  "ex_big_env = ex_env\<lparr>httpGet := (\<lambda>addr. Some ex_big)\<rparr>"

definition ex_new_pdf :: "string researcher" where
  "ex_new_pdf = \<lparr>kind = Pdf, docType = [], Url = [], metadata = None\<rparr>"

definition ex_done_pdf :: "string researcher" where
  "ex_done_pdf = \<lparr>kind = Pdf, docType = ''pdf'', Url = ''https://example.com/doc.pdf'',
                   metadata = Some ''Title''\<rparr>"

section \<open>The storage invariant\<close>

lemma us_inv_new: "us_inv newUrlStorage"
  by (simp add: us_inv_def newUrlStorage_def unused_def)

lemma us_inv_add: "us_inv us \<Longrightarrow> us_inv (snd (add uo us))"
  by (auto simp: us_inv_def add_def unused_def Let_def split: option.splits)

lemma use_empty: "queue us = [] \<Longrightarrow> use us = ((None, False), us)"
  by (simp add: use_def use_from.simps[of us 0])

lemma use_from_inv_head:
  assumes "us_inv us" "queue us \<noteq> []"
  shows "use us = ((urlObjects us (hd (queue us)), True),
            us\<lparr>urlStatus := (urlStatus us)(hd (queue us) \<mapsto> True),
               queue := butlast ((queue us)[0 := last (queue us)])\<rparr>)"
proof -
  have "hd (queue us) \<in> unused us" using assms by (auto simp: us_inv_def)
  then have "\<not> status_of us (queue us ! 0)"
    using assms(2) by (simp add: unused_def status_of_def hd_conv_nth)
  then show ?thesis using assms(2) by (simp add: use_def use_from.simps[of us 0] hd_conv_nth)
qed

lemma swap_remove_head:
  assumes "xs \<noteq> []" "distinct xs"
  shows "distinct (butlast (xs[0 := last xs])) \<and>
         set (butlast (xs[0 := last xs])) = set xs - {hd xs}"
proof (cases xs)
  case Nil
  with assms show ?thesis by simp
next
  case (Cons x ys)
  show ?thesis
  proof (cases "ys = []")
    case True
    with Cons show ?thesis by simp
  next
    case False
    have bl: "butlast ys @ [last ys] = ys" using False by simp
    have xy: "distinct ys" "x \<notin> set ys" using assms(2) Cons by auto
    then have "distinct (butlast ys @ [last ys])" by (simp only: bl)
    then have d: "last ys \<notin> set (butlast ys)" "distinct (butlast ys)" by simp_all
    have s: "set ys = insert (last ys) (set (butlast ys))"
      using arg_cong[OF bl, of set] by simp
    show ?thesis using Cons False d s xy by auto
  qed
qed

lemma us_inv_use:
  assumes "us_inv us"
  shows "us_inv (snd (use us))"
proof (cases "queue us = []")
  case True
  then show ?thesis using assms by (simp add: use_empty)
next
  case False
  let ?k = "hd (queue us)"
  have k: "urlStatus us ?k = Some False"
    using assms False by (auto simp: us_inv_def unused_def)
  have q: "distinct (butlast ((queue us)[0 := last (queue us)]))"
     "set (butlast ((queue us)[0 := last (queue us)])) = unused us - {?k}"
    using swap_remove_head[OF False] assms by (auto simp: us_inv_def)
  have u: "unused (us\<lparr>urlStatus := (urlStatus us)(?k \<mapsto> True),
               queue := butlast ((queue us)[0 := last (queue us)])\<rparr>) = unused us - {?k}"
    by (auto simp: unused_def)
  have d: "dom ((urlStatus us)(?k \<mapsto> True)) = dom (urlStatus us)"
    using k by auto
  show ?thesis
    using assms q u d unfolding use_from_inv_head[OF assms False]
    by (simp add: us_inv_def)
qed

lemma reachable_inv: "reachable us \<Longrightarrow> us_inv us"
  by (induction rule: reachable.induct) (simp_all add: us_inv_new us_inv_add us_inv_use)

lemma use_none: "us_inv us \<Longrightarrow> unused us = {} \<Longrightarrow> use us = ((None, False), us)"
  by (simp add: us_inv_def use_empty)

lemma use_some:
  assumes "us_inv us" "unused us \<noteq> {}"
  shows "\<exists>u. fst (use us) = (Some u, True) \<and> urlStatus us (String u) = Some False \<and>
             urlObjects us (String u) = Some u \<and>
             urlStatus (snd (use us)) = (urlStatus us)(String u \<mapsto> True) \<and>
             urlObjects (snd (use us)) = urlObjects us \<and>
             unused (snd (use us)) = unused us - {String u}"
proof -
  have ne: "queue us \<noteq> []" using assms by (auto simp: us_inv_def)
  let ?k = "hd (queue us)"
  have k: "urlStatus us ?k = Some False"
    using assms(1) ne by (auto simp: us_inv_def unused_def)
  then have "?k \<in> dom (urlObjects us)" using assms(1) by (auto simp: us_inv_def)
  then obtain u where u: "urlObjects us ?k = Some u" by auto
  then have s: "String u = ?k" using assms(1) by (auto simp: us_inv_def)
  have "unused (snd (use us)) = unused us - {?k}"
    unfolding use_from_inv_head[OF assms(1) ne] by (auto simp: unused_def)
  then show ?thesis
    using u s k unfolding use_from_inv_head[OF assms(1) ne] by auto
qed

lemma used_keys_add: "used_keys (snd (add uo us)) = used_keys us"
  by (auto simp: used_keys_def add_def Let_def split: option.splits)

lemma status_use_from_mono:
  "urlStatus us k = Some True \<Longrightarrow> urlStatus (snd (use_from us i)) k = Some True"
proof (induction us i rule: use_from.induct)
  case (1 us i)
  show ?case
  proof (cases "i < length (queue us) \<and> status_of us (queue us ! i)")
    case True
    then show ?thesis using 1 by (simp add: use_from.simps[of us i])
  next
    case False
    then show ?thesis using 1(2) by (auto simp add: use_from.simps[of us i])
  qed
qed

lemma used_keys_use_mono: "used_keys us \<subseteq> used_keys (snd (use us))"
  by (auto simp: used_keys_def use_def status_use_from_mono)

lemma apply_op_inv: "us_inv us \<Longrightarrow> us_inv (snd (apply_op p us))"
  by (cases p) (simp_all add: us_inv_add us_inv_use)

lemma apply_op_used_mono: "used_keys us \<subseteq> used_keys (snd (apply_op p us))"
  by (cases p) (simp_all add: used_keys_add used_keys_use_mono)

lemma use_acquired_fresh:
  assumes "us_inv us" "fst (use us) = (Some u, True)"
  shows "String u \<notin> used_keys us \<and> String u \<in> used_keys (snd (use us))"
proof (cases "unused us = {}")
  case True
  with assms show ?thesis by (simp add: use_none)
next
  case False
  from use_some[OF assms(1) False] assms(2) show ?thesis
    by (auto simp: used_keys_def)
qed

lemma run_ops_Cons:
  "fst (run_ops (p # ps) us) = fst (apply_op p us) # fst (run_ops ps (snd (apply_op p us)))"
  "snd (run_ops (p # ps) us) = snd (run_ops ps (snd (apply_op p us)))"
  by (simp_all add: case_prod_beta)

lemma run_acquired_distinct:
  "us_inv us \<Longrightarrow>
     distinct (acquired (fst (run_ops ops us))) \<and>
     set (acquired (fst (run_ops ops us))) \<inter> used_keys us = {}"
proof (induction ops arbitrary: us)
  case Nil
  then show ?case by simp
next
  case (Cons p ps)
  let ?us' = "snd (apply_op p us)"
  have inv': "us_inv ?us'" using Cons.prems by (rule apply_op_inv)
  have IH: "distinct (acquired (fst (run_ops ps ?us')))"
           "set (acquired (fst (run_ops ps ?us'))) \<inter> used_keys ?us' = {}"
    using Cons.IH[OF inv'] by simp_all
  have mono: "used_keys us \<subseteq> used_keys ?us'" by (rule apply_op_used_mono)
  note run_eq = run_ops_Cons(1)[of p ps us]
  show ?case
  proof (cases p)
    case (Add uo)
    then show ?thesis using IH mono unfolding run_eq by auto
  next
    case Use
    show ?thesis
    proof (cases "fst (use us)")
      case (Pair uo ok)
      show ?thesis
      proof (cases "\<exists>u. uo = Some u \<and> ok")
        case True
        then obtain u where u: "fst (use us) = (Some u, True)" using Pair by auto
        from use_acquired_fresh[OF Cons.prems u]
        have "String u \<notin> used_keys us" "String u \<in> used_keys ?us'" using Use by simp_all
        moreover have "acquired (fst (run_ops (p # ps) us)) = String u # acquired (fst (run_ops ps ?us'))"
          unfolding run_eq using Use u by simp
        ultimately show ?thesis using IH mono by auto
      next
        case False
        then have "acquired (fst (run_ops (p # ps) us)) = acquired (fst (run_ops ps ?us'))"
          unfolding run_eq using Use Pair by (cases uo; cases ok) simp_all
        then show ?thesis using IH mono by auto
      qed
    qed
  qed
qed

lemma card_unused: "us_inv us \<Longrightarrow> card (unused us) = length (queue us)"
  by (metis distinct_card us_inv_def)

lemma finite_unused: "us_inv us \<Longrightarrow> finite (unused us)"
  by (metis List.finite_set us_inv_def)

lemma use_n_run: "use_n n us = snd (run_ops (replicate n Use) us)"
  by (induction n arbitrary: us) (simp_all add: case_prod_beta)

lemma use_n_exhausts:
  "us_inv us \<Longrightarrow> card (unused us) \<le> n \<Longrightarrow> unused (use_n n us) = {} \<and> us_inv (use_n n us)"
proof (induction n arbitrary: us)
  case 0
  then show ?case using finite_unused by auto
next
  case (Suc n)
  show ?case
  proof (cases "unused us = {}")
    case True
    then have "snd (use us) = us" using Suc.prems by (simp add: use_none)
    then show ?thesis using Suc.IH[of us] Suc.prems True by simp
  next
    case False
    from use_some[OF Suc.prems(1) False] obtain u where
      u: "unused (snd (use us)) = unused us - {String u}" "urlStatus us (String u) = Some False" by blast
    then have "String u \<in> unused us" by (simp add: unused_def)
    then have "card (unused (snd (use us))) \<le> n"
      using u(1) Suc.prems finite_unused[OF Suc.prems(1)] by (simp add: card_Diff_singleton)
    then show ?thesis using Suc.IH[OF us_inv_use[OF Suc.prems(1)]] by simp
  qed
qed

lemma use_n_succeeds:
  "us_inv us \<Longrightarrow> n \<le> card (unused us) \<Longrightarrow>
     succeeded (fst (run_ops (replicate n Use) us)) = replicate n True \<and>
     length (acquired (fst (run_ops (replicate n Use) us))) = n \<and>
     set (acquired (fst (run_ops (replicate n Use) us))) \<subseteq> unused us \<and>
     card (unused (use_n n us)) = card (unused us) - n"
proof (induction n arbitrary: us)
  case 0
  then show ?case by simp
next
  case (Suc n)
  then have ne: "unused us \<noteq> {}" by auto
  from use_some[OF Suc.prems(1) ne] obtain u where
    u: "fst (use us) = (Some u, True)" "unused (snd (use us)) = unused us - {String u}"
       "urlStatus us (String u) = Some False" by blast
  have mem: "String u \<in> unused us" using u(3) by (simp add: unused_def)
  have c: "card (unused (snd (use us))) = card (unused us) - 1"
    using u(2) mem finite_unused[OF Suc.prems(1)] by (simp add: card_Diff_singleton)
  then have le: "n \<le> card (unused (snd (use us)))" using Suc.prems(2) by simp
  note IH = Suc.IH[OF us_inv_use[OF Suc.prems(1)] le]
  have r: "fst (run_ops (replicate (Suc n) Use) us) =
             Used (Some u) True # fst (run_ops (replicate n Use) (snd (use us)))"
    using u(1) by (simp add: case_prod_beta)
  show ?case unfolding r using IH u(2) mem c by auto
qed

section \<open>What the size-limited copy does\<close>

lemma LimitedReader_Read_exhausted:
  "N l \<le> 0 \<Longrightarrow> LimitedReader_Read l n = (([], Some EOF), l)"
  by (simp add: LimitedReader_Read_def)

lemma LimitedReader_Read_end:
  "0 < N l \<Longrightarrow> pending (R l) = [] \<Longrightarrow>
     LimitedReader_Read l n = (([], Some (if broken (R l) then ReadFailure else EOF)), l)"
  by (simp add: LimitedReader_Read_def reader_Read_def Let_def)

lemma LimitedReader_Read_data:
  "0 < N l \<Longrightarrow> pending (R l) \<noteq> [] \<Longrightarrow>
     LimitedReader_Read l n =
       ((take (min n (nat (N l))) (pending (R l)), None),
        l\<lparr>R := (R l)\<lparr>pending := drop (min n (nat (N l))) (pending (R l))\<rparr>,
          N := N l - int (length (take (min n (nat (N l))) (pending (R l))))\<rparr>)"
  by (auto simp: LimitedReader_Read_def reader_Read_def Let_def min_def)

lemma copy_loop_closed:
  "fst (copy_loop k l dst) = (dst @ copied_bytes l, copied_err l) \<and>
   N (snd (copy_loop k l dst)) = copied_left l"
proof (induction k l dst rule: copy_loop.induct)
  case (1 k l dst)
  show ?case
  proof (cases "N l \<le> 0")
    case True
    then show ?thesis
      by (simp add: copy_loop.simps[of k l dst] LimitedReader_Read_exhausted
          copied_bytes_def copied_err_def copied_left_def)
  next
    case pos: False
    show ?thesis
    proof (cases "pending (R l) = []")
      case True
      then show ?thesis using pos
        by (simp add: copy_loop.simps[of k l dst] LimitedReader_Read_end
            copied_bytes_def copied_err_def copied_left_def)
    next
      case False
      let ?p = "min (Suc k) (nat (N l))"
      let ?l' = "l\<lparr>R := (R l)\<lparr>pending := drop ?p (pending (R l))\<rparr>,
          N := N l - int (length (take ?p (pending (R l))))\<rparr>"
      have rd: "LimitedReader_Read l (Suc k) = ((take ?p (pending (R l)), None), ?l')"
        using pos False by (simp add: LimitedReader_Read_data)
      have step: "copy_loop k l dst = copy_loop k ?l' (dst @ take ?p (pending (R l)))"
        by (subst copy_loop.simps) (simp add: rd)
      have IH: "fst (copy_loop k ?l' (dst @ take ?p (pending (R l))))
                  = ((dst @ take ?p (pending (R l))) @ copied_bytes ?l', copied_err ?l') \<and>
                N (snd (copy_loop k ?l' (dst @ take ?p (pending (R l))))) = copied_left ?l'"
        using "1.IH" rd by simp
      have pN: "?p \<le> nat (N l)" by simp
      have b: "take ?p (pending (R l)) @ copied_bytes ?l' = copied_bytes l"
      proof -
        let ?m = "min (length (pending (R l))) ?p"
        have 1: "nat (N l - int ?m) = nat (N l) - ?m"
          using pos by (simp add: nat_diff_distrib')
        have 2: "take ?p (pending (R l)) @ take (nat (N l) - ?p) (drop ?p (pending (R l)))
               = take (nat (N l)) (pending (R l))"
          using pN by (metis le_add_diff_inverse take_add)
        have 3: "take (nat (N l) - ?m) (drop ?p (pending (R l)))
               = take (nat (N l) - ?p) (drop ?p (pending (R l)))"
          by (cases "?p \<le> length (pending (R l))") (simp_all add: min_def)
        have "copied_bytes ?l' = take (nat (N l - int ?m)) (drop ?p (pending (R l)))"
          by (simp add: copied_bytes_def)
        then show ?thesis unfolding 1 3 using 2 by (simp add: copied_bytes_def)
      qed
      have e: "copied_err ?l' = copied_err l"
        using pos pN by (auto simp: copied_err_def min_def)
      have n: "copied_left ?l' = copied_left l"
        using pos pN by (auto simp: copied_left_def min_def)
      show ?thesis unfolding step using IH b e n by simp
    qed
  qed
qed

lemma io_Copy_closed:
  "fst (io_Copy l) = (copied_bytes l, copied_err l) \<and> N (snd (io_Copy l)) = copied_left l"
  using copy_loop_closed[of _ l "[]"] by (simp add: io_Copy_def Let_def)

section \<open>The analysis phase\<close>




lemma analyse_types_match:
  "first_match ts (String u) = Some t \<Longrightarrow> New t = Some eng \<Longrightarrow>
   analyse_types env ts u st =
     Some (st\<lparr>engine :=
                 (if fst (fst (Do env eng (String u) (outside st))) = None
                  then (engine st)\<lparr>docStorage :=
                         (docStorage (engine st))
                           (String u \<mapsto> snd (fst (Do env eng (String u) (outside st))))\<rparr>
                  else engine st),
               outside := snd (Do env eng (String u) (outside st)),
               calls := calls st @
                 [\<lparr>c_type = t, c_url = String u,
                   c_err = fst (fst (Do env eng (String u) (outside st))),
                   c_eng = snd (fst (Do env eng (String u) (outside st)))\<rparr>]\<rparr>)"
  by (induction ts) (auto simp: first_match_def Let_def split: if_splits)





section \<open>Example URLs and their canonical strings\<close>

lemma String_ex [simp]:
  "String ex_root = ''https://example.com/''"
  "String ex_page = ''https://example.com/a.html''"
  "String ex_pdf = ''https://example.com/doc.pdf''"
  "String ex_other = ''https://other.org/b.pdf''"
  "String ex_empty = []"
  by (simp_all add: String_def ex_root_def ex_page_def ex_pdf_def ex_other_def ex_empty_def)

section \<open>Adding to the storage\<close>

lemma submitted_simps [simp]:
  "submitted [] = {}"
  "submitted (Add (Some u) # ops) = insert (String u) (submitted ops)"
  "submitted (Add None # ops) = submitted ops"
  "submitted (Use # ops) = submitted ops"
  by (auto simp: submitted_def)

lemma dom_status_add:
  "dom (urlStatus (snd (add uo us))) =
     (case uo of None \<Rightarrow> dom (urlStatus us) | Some u \<Rightarrow> insert (String u) (dom (urlStatus us)))"
  by (auto simp: add_def Let_def split: option.splits)

lemma dom_objects_add_mono: "dom (urlObjects us) \<subseteq> dom (urlObjects (snd (add uo us)))"
  by (auto simp: add_def Let_def split: option.splits)

lemma dom_status_use_from_mono: "dom (urlStatus us) \<subseteq> dom (urlStatus (snd (use_from us i)))"
proof (induction us i rule: use_from.induct)
  case (1 us i)
  show ?case
  proof (cases "i < length (queue us) \<and> status_of us (queue us ! i)")
    case True
    then show ?thesis using 1 by (simp add: use_from.simps[of us i])
  next
    case False
    then show ?thesis by (auto simp add: use_from.simps[of us i])
  qed
qed

lemma objects_use_from: "urlObjects (snd (use_from us i)) = urlObjects us"
proof (induction us i rule: use_from.induct)
  case (1 us i)
  show ?case
  proof (cases "i < length (queue us) \<and> status_of us (queue us ! i)")
    case True
    then show ?thesis using 1 by (simp add: use_from.simps[of us i])
  next
    case False
    then show ?thesis by (auto simp add: use_from.simps[of us i])
  qed
qed

lemma dom_status_use_inv: "us_inv us \<Longrightarrow> dom (urlStatus (snd (use us))) = dom (urlStatus us)"
proof (cases "unused us = {}")
  case True
  assume "us_inv us"
  then show ?thesis using True by (simp add: use_none)
next
  case False
  assume "us_inv us"
  from use_some[OF this False] obtain u where
    u: "urlStatus us (String u) = Some False"
       "urlStatus (snd (use us)) = (urlStatus us)(String u \<mapsto> True)" by blast
  show ?thesis unfolding u(2) using u(1) by auto
qed

declare run_ops.simps(2) [simp del]

lemma dom_status_run_ops:
  "us_inv us \<Longrightarrow> dom (urlStatus (snd (run_ops ops us))) = dom (urlStatus us) \<union> submitted ops"
proof (induction ops arbitrary: us)
  case Nil
  then show ?case by simp
next
  case (Cons p ps)
  note IH = Cons.IH[OF apply_op_inv[OF Cons.prems, of p]]
  show ?case
  proof (cases p)
    case (Add uo)
    then show ?thesis using IH
      by (cases uo) (auto simp: run_ops_Cons(2) dom_status_add)
  next
    case Use
    then show ?thesis using IH dom_status_use_inv[OF Cons.prems]
      by (simp add: run_ops_Cons(2))
  qed
qed

lemma entries_never_deleted:
  "dom (urlStatus us) \<subseteq> dom (urlStatus (snd (apply_op p us))) \<and>
   dom (urlObjects us) \<subseteq> dom (urlObjects (snd (apply_op p us)))"
proof (cases p)
  case (Add uo)
  then show ?thesis using dom_objects_add_mono[of us uo]
    by (cases uo) (auto simp: dom_status_add)
next
  case Use
  then show ?thesis using dom_status_use_from_mono[of us 0]
    by (simp add: use_def objects_use_from)
qed

text \<open>
  Claim C2, as stated, has \<^verbatim>\<open>add\<close> return false for a null or empty input. The code
  guards the nil pointer only: the empty URL (the value \<^verbatim>\<open>url.Parse("")\<close> returns), whose
  canonical string is empty, is inserted into a new storage under the empty key, and
  \<^verbatim>\<open>add\<close> returns true.
\<close>

theorem add_empty_url_counterexample:
  "String ex_empty = []
   \<and> fst (add (Some ex_empty) newUrlStorage) = True
   \<and> urlStatus (snd (add (Some ex_empty) newUrlStorage)) [] = Some False
   \<and> urlObjects (snd (add (Some ex_empty) newUrlStorage)) [] = Some ex_empty
   \<and> queue (snd (add (Some ex_empty) newUrlStorage)) = [[]]"
  by (simp add: add_def Let_def newUrlStorage_def)

text \<open>
  Claim C2, amended. \<^verbatim>\<open>add\<close> returns false for a nil pointer and leaves the storage as
  it is; for every URL, the empty one included, it returns true exactly when the canonical
  string was absent, and then the entry is stored under that string as unused, while a
  duplicate leaves the storage as it is; adding the same URL a second time returns false.
  After any sequence of calls on a new storage the number of entries is the number of
  distinct canonical strings submitted, and no call removes an entry.
\<close>

theorem add_dedup:
  "add None us = (False, us)
   \<and> fst (add (Some u) us) = (urlStatus us (String u) = None)
   \<and> dom (urlStatus (snd (add (Some u) us))) = insert (String u) (dom (urlStatus us))
   \<and> (urlStatus us (String u) = None \<longrightarrow>
        urlObjects (snd (add (Some u) us)) (String u) = Some u \<and>
        urlStatus (snd (add (Some u) us)) (String u) = Some False)
   \<and> (urlStatus us (String u) \<noteq> None \<longrightarrow> snd (add (Some u) us) = us)
   \<and> fst (add (Some u) (snd (add (Some u) us))) = False
   \<and> fst (count (snd (run_ops ops newUrlStorage))) = card (submitted ops)
   \<and> dom (urlStatus us) \<subseteq> dom (urlStatus (snd (apply_op p us)))
   \<and> dom (urlObjects us) \<subseteq> dom (urlObjects (snd (apply_op p us)))"
proof -
  have a: "add None us = (False, us)" by (simp add: add_def)
  have b: "fst (add (Some u) us) = (urlStatus us (String u) = None)"
    by (simp add: add_def Let_def)
  have c: "dom (urlStatus (snd (add (Some u) us))) = insert (String u) (dom (urlStatus us))"
    by (simp add: dom_status_add)
  have d: "urlStatus us (String u) = None \<longrightarrow>
        urlObjects (snd (add (Some u) us)) (String u) = Some u \<and>
        urlStatus (snd (add (Some u) us)) (String u) = Some False"
    by (simp add: add_def Let_def)
  have e: "urlStatus us (String u) \<noteq> None \<longrightarrow> snd (add (Some u) us) = us"
    by (simp add: add_def Let_def)
  have f: "fst (add (Some u) (snd (add (Some u) us))) = False"
    by (auto simp add: add_def Let_def)
  have "dom (urlStatus (snd (run_ops ops newUrlStorage))) = submitted ops"
    using dom_status_run_ops[OF us_inv_new, of ops] by (simp add: newUrlStorage_def)
  then have g: "fst (count (snd (run_ops ops newUrlStorage))) = card (submitted ops)"
    by (simp add: count_def)
  show ?thesis using a b c d e f g entries_never_deleted[of us p] by blast
qed

theorem add_dedup_witness:
  "add None newUrlStorage = (False, newUrlStorage)
   \<and> fst (add (Some ex_page) newUrlStorage) = True
   \<and> fst (add (Some ex_page) (snd (add (Some ex_page) newUrlStorage))) = False
   \<and> urlStatus (snd (add (Some ex_page) newUrlStorage)) ''https://example.com/a.html'' = Some False
   \<and> fst (count (snd (run_ops [Add (Some ex_page), Add (Some ex_pdf), Add None,
                                 Add (Some ex_page), Use, Add (Some ex_pdf)] newUrlStorage))) = 2"
proof -
  note w = add_dedup[of newUrlStorage ex_page
      "[Add (Some ex_page), Add (Some ex_pdf), Add None, Add (Some ex_page), Use, Add (Some ex_pdf)]" Use]
  have n: "urlStatus newUrlStorage (String ex_page) = None" by (simp add: newUrlStorage_def)
  have "submitted [Add (Some ex_page), Add (Some ex_pdf), Add None, Add (Some ex_page), Use,
                   Add (Some ex_pdf)] = {''https://example.com/a.html'', ''https://example.com/doc.pdf''}"
    by auto
  then have c: "card (submitted [Add (Some ex_page), Add (Some ex_pdf), Add None,
                   Add (Some ex_page), Use, Add (Some ex_pdf)]) = 2"
    by simp
  show ?thesis using w n c by simp
qed

section \<open>Taking from the storage\<close>

lemma acquired_all_unused:
  assumes "us_inv us"
  shows "succeeded (fst (run_ops (replicate (card (unused us)) Use) us)) = replicate (card (unused us)) True
       \<and> distinct (acquired (fst (run_ops (replicate (card (unused us)) Use) us)))
       \<and> set (acquired (fst (run_ops (replicate (card (unused us)) Use) us))) = unused us"
proof -
  let ?rs = "fst (run_ops (replicate (card (unused us)) Use) us)"
  from use_n_succeeds[OF assms order_refl]
  have s: "succeeded ?rs = replicate (card (unused us)) True"
    and l: "length (acquired ?rs) = card (unused us)"
    and sub: "set (acquired ?rs) \<subseteq> unused us" by simp_all
  have d: "distinct (acquired ?rs)" using run_acquired_distinct[OF assms] by simp
  then have "card (set (acquired ?rs)) = card (unused us)" using l by (simp add: distinct_card)
  then have "set (acquired ?rs) = unused us"
    using sub finite_unused[OF assms] by (simp add: card_subset_eq)
  then show ?thesis using s d by simp
qed

text \<open>
  Claim C1. In every state the storage can reach, \<^verbatim>\<open>use\<close> reports not found and changes
  nothing when no entry is unused; otherwise it returns one entry that was unused, and the
  only change to the entries is that this one is now used. No call of \<^verbatim>\<open>add\<close> or
  \<^verbatim>\<open>use\<close> makes a used entry unused again. In any sequence of calls the entries handed out
  are pairwise different and none of them was used before. Taking as many times as there are
  unused entries succeeds every time and hands out exactly the unused entries; after that
  many calls or more, \<^verbatim>\<open>use\<close> reports not found and changes nothing.
\<close>

theorem use_exactly_once:
  assumes "reachable us"
  shows "(unused us = {} \<longrightarrow> use us = ((None, False), us))
   \<and> (unused us \<noteq> {} \<longrightarrow>
        (\<exists>u. fst (use us) = (Some u, True) \<and> urlStatus us (String u) = Some False \<and>
             urlObjects us (String u) = Some u \<and>
             urlStatus (snd (use us)) = (urlStatus us)(String u \<mapsto> True) \<and>
             urlObjects (snd (use us)) = urlObjects us))
   \<and> used_keys us \<subseteq> used_keys (snd (apply_op p us))
   \<and> distinct (acquired (fst (run_ops ops us)))
   \<and> set (acquired (fst (run_ops ops us))) \<inter> used_keys us = {}
   \<and> succeeded (fst (run_ops (replicate (card (unused us)) Use) us)) = replicate (card (unused us)) True
   \<and> set (acquired (fst (run_ops (replicate (card (unused us)) Use) us))) = unused us
   \<and> (\<forall>m\<ge>card (unused us). use (use_n m us) = ((None, False), use_n m us))"
proof -
  have inv: "us_inv us" using assms by (rule reachable_inv)
  have a: "unused us = {} \<longrightarrow> use us = ((None, False), us)"
    using inv by (simp add: use_none)
  have b: "unused us \<noteq> {} \<longrightarrow>
        (\<exists>u. fst (use us) = (Some u, True) \<and> urlStatus us (String u) = Some False \<and>
             urlObjects us (String u) = Some u \<and>
             urlStatus (snd (use us)) = (urlStatus us)(String u \<mapsto> True) \<and>
             urlObjects (snd (use us)) = urlObjects us)"
    using use_some[OF inv] by blast
  have c: "\<forall>m\<ge>card (unused us). use (use_n m us) = ((None, False), use_n m us)"
    using use_n_exhausts[OF inv] use_none by blast
  show ?thesis
    using a b c apply_op_used_mono[of us p] run_acquired_distinct[OF inv, of ops]
      acquired_all_unused[OF inv]
    by blast
qed

theorem use_exactly_once_witness:
  "reachable (snd (add (Some ex_pdf) (snd (add (Some ex_page) newUrlStorage))))
   \<and> card (unused (snd (add (Some ex_pdf) (snd (add (Some ex_page) newUrlStorage))))) = 2
   \<and> acquired (fst (run_ops [Use, Use, Use] (snd (add (Some ex_pdf) (snd (add (Some ex_page) newUrlStorage))))))
       = [''https://example.com/a.html'', ''https://example.com/doc.pdf'']
   \<and> distinct (acquired (fst (run_ops [Use, Use, Use] (snd (add (Some ex_pdf) (snd (add (Some ex_page) newUrlStorage)))))))
   \<and> use (use_n 2 (snd (add (Some ex_pdf) (snd (add (Some ex_page) newUrlStorage)))))
       = ((None, False), use_n 2 (snd (add (Some ex_pdf) (snd (add (Some ex_page) newUrlStorage)))))"
proof -
  let ?us = "snd (add (Some ex_pdf) (snd (add (Some ex_page) newUrlStorage)))"
  have r: "reachable ?us" by (intro reach_add reach_new)
  have q: "queue ?us = [''https://example.com/a.html'', ''https://example.com/doc.pdf'']"
    by (simp add: add_def Let_def newUrlStorage_def)
  have c: "card (unused ?us) = 2"
    using card_unused[OF reachable_inv[OF r]] q by simp
  note w = use_exactly_once[OF r, of Use "[Use, Use, Use]"]
  have d: "distinct (acquired (fst (run_ops [Use, Use, Use] ?us)))" using w by blast
  have e: "use (use_n 2 ?us) = ((None, False), use_n 2 ?us)" using w c by simp
  have s: "set (acquired (fst (run_ops (replicate 2 Use) ?us))) = unused ?us"
    using w c by simp
  have u: "use ?us = ((Some ex_page, True),
       \<lparr>urlStatus = [''https://example.com/doc.pdf'' \<mapsto> False, ''https://example.com/a.html'' \<mapsto> True],
        urlObjects = [''https://example.com/a.html'' \<mapsto> ex_page, ''https://example.com/doc.pdf'' \<mapsto> ex_pdf],
        queue = [''https://example.com/doc.pdf'']\<rparr>)"
    by (simp add: use_def use_from.simps[of _ 0] add_def Let_def newUrlStorage_def status_of_def)
  have a: "acquired (fst (run_ops [Use, Use, Use] ?us))
       = [''https://example.com/a.html'', ''https://example.com/doc.pdf'']"
    unfolding run_ops.simps apply_op.simps u
    by (simp add: use_def use_from.simps[of _ 0] status_of_def)
  show ?thesis using r c a d e by blast
qed

section \<open>The size limit of the download\<close>

lemma maxFileSize_pos: "0 < maxFileSize"
  by (simp add: maxFileSize_def)

lemma os_Remove_created:
  "files w tmp = None \<Longrightarrow> os_Remove tmp (w\<lparr>files := (files w)(tmp \<mapsto> bs)\<rparr>) = (None, w)"
  by (simp add: os_Remove_def fun_upd_idem)

lemma readCloserToReadSeekerFile_eval:
  assumes "createTemp env (files w) = Some tmp" "files w tmp = None"
  shows "readCloserToReadSeekerFile env rc w =
     (if int (length (pending rc)) < maxFileSize \<and> broken rc then (Inl ErrRead, w)
      else if maxFileSize \<le> int (length (pending rc)) then (Inl ErrTooLarge, w)
      else if seekFails env then (Inl ErrSeek, w)
      else (Inr (tmp, pending rc), w\<lparr>files := (files w)(tmp \<mapsto> pending rc)\<rparr>))"
proof -
  let ?l = "\<lparr>R = rc, N = maxFileSize\<rparr>"
  have c: "fst (fst (io_Copy ?l)) = copied_bytes ?l" "snd (fst (io_Copy ?l)) = copied_err ?l"
    "N (snd (io_Copy ?l)) = copied_left ?l"
    using io_Copy_closed[of ?l] by simp_all
  have e: "copied_err ?l \<noteq> None \<longleftrightarrow> int (length (pending rc)) < maxFileSize \<and> broken rc"
    by (simp add: copied_err_def)
  have z: "copied_left ?l = 0 \<longleftrightarrow> maxFileSize \<le> int (length (pending rc))"
    using maxFileSize_pos by (auto simp: copied_left_def)
  have b: "int (length (pending rc)) < maxFileSize \<Longrightarrow> copied_bytes ?l = pending rc"
    by (simp add: copied_bytes_def)
  show ?thesis
    unfolding readCloserToReadSeekerFile_def Let_def c e z
    using assms b by (simp add: os_Remove_created)
qed

text \<open>
  Claim C9. When the temporary file can be created, a body of \<open>maxFileSize\<close> bytes or more,
  the body of exactly \<open>maxFileSize\<close> bytes included, leaves the count of the limited reader
  at zero after the copy, and \<^verbatim>\<open>readCloserToReadSeekerFile\<close> returns the error of the
  oversized file and has removed the temporary file; a shorter body leaves a positive count
  and is never rejected as oversized: read without error, it is returned as the file.
\<close>

theorem size_limit_boundary:
  assumes "createTemp env (files w) = Some tmp" "files w tmp = None"
  shows "(int (length (pending rc)) = maxFileSize \<longrightarrow>
            readCloserToReadSeekerFile env rc w = (Inl ErrTooLarge, w) \<and>
            N (snd (io_Copy \<lparr>R = rc, N = maxFileSize\<rparr>)) = 0)
       \<and> (maxFileSize \<le> int (length (pending rc)) \<longrightarrow>
            readCloserToReadSeekerFile env rc w = (Inl ErrTooLarge, w) \<and>
            N (snd (io_Copy \<lparr>R = rc, N = maxFileSize\<rparr>)) = 0)
       \<and> (int (length (pending rc)) < maxFileSize \<longrightarrow>
            fst (readCloserToReadSeekerFile env rc w) \<noteq> Inl ErrTooLarge \<and>
            N (snd (io_Copy \<lparr>R = rc, N = maxFileSize\<rparr>)) = maxFileSize - int (length (pending rc)))
       \<and> (int (length (pending rc)) < maxFileSize \<and> \<not> broken rc \<and> \<not> seekFails env \<longrightarrow>
            readCloserToReadSeekerFile env rc w =
              (Inr (tmp, pending rc), w\<lparr>files := (files w)(tmp \<mapsto> pending rc)\<rparr>))"
proof -
  have n: "N (snd (io_Copy \<lparr>R = rc, N = maxFileSize\<rparr>)) =
             (if int (length (pending rc)) < maxFileSize
              then maxFileSize - int (length (pending rc)) else 0)"
    using io_Copy_closed[of "\<lparr>R = rc, N = maxFileSize\<rparr>"] maxFileSize_pos
    by (simp add: copied_left_def)
  show ?thesis
    unfolding readCloserToReadSeekerFile_eval[OF assms] n by auto
qed

theorem size_limit_boundary_witness:
  "createTemp ex_env (files \<lparr>files = Map.empty\<rparr>) = Some ''readseeker-1''
   \<and> files \<lparr>files = Map.empty\<rparr> ''readseeker-1'' = None
   \<and> int (length (pending \<lparr>pending = replicate (100 * 1024 * 1024) (CHR ''a''), broken = False\<rparr>))
        = maxFileSize
   \<and> readCloserToReadSeekerFile ex_env
        \<lparr>pending = replicate (100 * 1024 * 1024) (CHR ''a''), broken = False\<rparr> \<lparr>files = Map.empty\<rparr>
        = (Inl ErrTooLarge, \<lparr>files = Map.empty\<rparr>)
   \<and> readCloserToReadSeekerFile ex_env \<lparr>pending = ''%PDF'', broken = False\<rparr> \<lparr>files = Map.empty\<rparr>
        = (Inr (''readseeker-1'', ''%PDF''), \<lparr>files = [''readseeker-1'' \<mapsto> ''%PDF'']\<rparr>)"
proof -
  have c: "createTemp ex_env (files \<lparr>files = Map.empty\<rparr>) = Some ''readseeker-1''"
    by (simp add: ex_env_def)
  have f: "files \<lparr>files = Map.empty\<rparr> ''readseeker-1'' = None" by simp
  have l: "int (length (pending \<lparr>pending = replicate (100 * 1024 * 1024) (CHR ''a''), broken = False\<rparr>))
        = maxFileSize"
    by (simp add: maxFileSize_def)
  have s: "int (length (pending \<lparr>pending = ''%PDF'', broken = False\<rparr>)) < maxFileSize
        \<and> \<not> broken \<lparr>pending = ''%PDF'', broken = False\<rparr> \<and> \<not> seekFails ex_env"
    by (simp add: maxFileSize_def ex_env_def)
  have a: "readCloserToReadSeekerFile ex_env
        \<lparr>pending = replicate (100 * 1024 * 1024) (CHR ''a''), broken = False\<rparr> \<lparr>files = Map.empty\<rparr>
        = (Inl ErrTooLarge, \<lparr>files = Map.empty\<rparr>)"
    using size_limit_boundary[OF c f,
        of "\<lparr>pending = replicate (100 * 1024 * 1024) (CHR ''a''), broken = False\<rparr>"] l
    by blast
  have b: "readCloserToReadSeekerFile ex_env \<lparr>pending = ''%PDF'', broken = False\<rparr> \<lparr>files = Map.empty\<rparr>
        = (Inr (''readseeker-1'', ''%PDF''), \<lparr>files = [''readseeker-1'' \<mapsto> ''%PDF'']\<rparr>)"
    using size_limit_boundary[OF c f, of "\<lparr>pending = ''%PDF'', broken = False\<rparr>"] s
    by simp
  show ?thesis using c f l a b by (intro conjI)
qed

section \<open>An oversized document\<close>

lemma Do_oversized:
  fixes env :: "'m env" and eng :: "'m researcher"
  assumes "httpGet env addr = Some resp" "StatusCode resp = 200"
    "maxFileSize < int (length (pending (Body resp)))"
    "createTemp env (files w) = Some tmp" "files w tmp = None"
  shows "Do env eng addr w =
     ((Some ErrTooLarge,
       eng\<lparr>docType := (case kind eng of Pdf \<Rightarrow> ''pdf'' | Msox \<Rightarrow> ''msox''), Url := addr\<rparr>), w)"
proof -
  have r: "readCloserToReadSeekerFile env (Body resp) w = (Inl ErrTooLarge, w)"
    using assms(3) by (simp add: readCloserToReadSeekerFile_eval[OF assms(4,5)])
  show ?thesis
    by (cases "kind eng") (simp_all add: Do_def tPdf_Do_def tMsox_Do_def assms(1,2) r)
qed

lemma analyse_types_failure:
  fixes env :: "'m env" and eng :: "'m researcher"
  assumes "first_match ts (String u) = Some t" "New t = Some eng"
    "fst (fst (Do env eng (String u) (outside st))) \<noteq> None"
  shows "\<exists>st'. analyse_types env ts u st = Some st' \<and> engine st' = engine st \<and>
           outside st' = snd (Do env eng (String u) (outside st)) \<and>
           map c_err (calls st') =
             map c_err (calls st) @ [fst (fst (Do env eng (String u) (outside st)))]"
  using assms(3) by (auto simp add: analyse_types_match[OF assms(1,2)])

text \<open>
  Claim C8. A document that is served with status 200 and a body of more than
  \<open>maxFileSize\<close> bytes makes \<^verbatim>\<open>Do\<close> of either analyzer return an error, and the world is
  afterwards as it was before the call: the temporary file of the download is gone. In the
  analysis every call of \<^verbatim>\<open>Do\<close> that returns an error, this one like the error of the
  parser, leaves the engine and its result store as they were, so the URL has no result.
\<close>

theorem oversized_document_dropped:
  fixes env :: "'m env" and eng :: "'m researcher"
  assumes "httpGet env addr = Some resp" "StatusCode resp = 200"
    "maxFileSize < int (length (pending (Body resp)))"
    "createTemp env (files w) = Some tmp" "files w tmp = None"
  shows "Do env eng addr w =
           ((Some ErrTooLarge,
             eng\<lparr>docType := (case kind eng of Pdf \<Rightarrow> ''pdf'' | Msox \<Rightarrow> ''msox''), Url := addr\<rparr>), w)
       \<and> files (snd (Do env eng addr w)) tmp = None
       \<and> (\<forall>(st :: 'm run_state) ts u t (eng1 :: 'm researcher).
             String u = addr \<and> outside st = w \<and> first_match ts addr = Some t \<and> New t = Some eng1
             \<longrightarrow> (\<exists>st'. analyse_types env ts u st = Some st' \<and> engine st' = engine st \<and>
                        outside st' = w \<and>
                        map c_err (calls st') = map c_err (calls st) @ [Some ErrTooLarge]))
       \<and> (\<forall>(env' :: 'm env) (st :: 'm run_state) ts u t eng1.
             first_match ts (String u) = Some t \<and> New t = Some eng1 \<and>
             fst (fst (Do env' eng1 (String u) (outside st))) \<noteq> None
             \<longrightarrow> (\<exists>st'. analyse_types env' ts u st = Some st' \<and> engine st' = engine st))"
proof -
  note d = Do_oversized[OF assms]
  have a: "Do env eng addr w =
           ((Some ErrTooLarge,
             eng\<lparr>docType := (case kind eng of Pdf \<Rightarrow> ''pdf'' | Msox \<Rightarrow> ''msox''), Url := addr\<rparr>), w)"
    by (rule d)
  have b: "files (snd (Do env eng addr w)) tmp = None" using assms(5) by (simp add: a)
  have c: "\<forall>(st :: 'm run_state) ts u t (eng1 :: 'm researcher).
             String u = addr \<and> outside st = w \<and> first_match ts addr = Some t \<and> New t = Some eng1
             \<longrightarrow> (\<exists>st'. analyse_types env ts u st = Some st' \<and> engine st' = engine st \<and>
                        outside st' = w \<and>
                        map c_err (calls st') = map c_err (calls st) @ [Some ErrTooLarge])"
  proof (intro allI impI)
    fix st :: "'m run_state" and ts u t and eng1 :: "'m researcher"
    assume h: "String u = addr \<and> outside st = w \<and> first_match ts addr = Some t \<and> New t = Some eng1"
    have fm: "first_match ts (String u) = Some t" using h by simp
    have nw: "New t = Some eng1" using h by simp
    have dd: "Do env eng1 (String u) (outside st) =
        ((Some ErrTooLarge,
          eng1\<lparr>docType := (case kind eng1 of Pdf \<Rightarrow> ''pdf'' | Msox \<Rightarrow> ''msox''), Url := addr\<rparr>), w)"
      using Do_oversized[OF assms, of eng1] h by simp
    show "\<exists>st'. analyse_types env ts u st = Some st' \<and> engine st' = engine st \<and>
                        outside st' = w \<and>
                        map c_err (calls st') = map c_err (calls st) @ [Some ErrTooLarge]"
      using analyse_types_failure[OF fm nw, of env st] by (simp add: dd)
  qed
  have e: "\<forall>(env' :: 'm env) (st :: 'm run_state) ts u t eng1.
             first_match ts (String u) = Some t \<and> New t = Some eng1 \<and>
             fst (fst (Do env' eng1 (String u) (outside st))) \<noteq> None
             \<longrightarrow> (\<exists>st'. analyse_types env' ts u st = Some st' \<and> engine st' = engine st)"
    using analyse_types_failure by blast
  show ?thesis using a b c e by (intro conjI)
qed

theorem oversized_document_dropped_witness:
  "httpGet ex_big_env ''https://example.com/doc.pdf'' = Some ex_big
   \<and> StatusCode ex_big = 200
   \<and> maxFileSize < int (length (pending (Body ex_big)))
   \<and> createTemp ex_big_env (files \<lparr>files = Map.empty\<rparr>) = Some ''readseeker-1''
   \<and> files \<lparr>files = Map.empty\<rparr> ''readseeker-1'' = None
   \<and> Do ex_big_env ex_new_pdf ''https://example.com/doc.pdf'' \<lparr>files = Map.empty\<rparr> =
        ((Some ErrTooLarge, ex_new_pdf\<lparr>docType := ''pdf'', Url := ''https://example.com/doc.pdf''\<rparr>),
         \<lparr>files = Map.empty\<rparr>)"
proof -
  have g: "httpGet ex_big_env ''https://example.com/doc.pdf'' = Some ex_big"
    by (simp add: ex_big_env_def)
  have s: "StatusCode ex_big = 200" by (simp add: ex_big_def)
  have l: "maxFileSize < int (length (pending (Body ex_big)))"
    by (simp add: ex_big_def maxFileSize_def)
  have c: "createTemp ex_big_env (files \<lparr>files = Map.empty\<rparr>) = Some ''readseeker-1''"
    by (simp add: ex_big_env_def ex_env_def)
  have f: "files \<lparr>files = Map.empty\<rparr> ''readseeker-1'' = None" by simp
  have k: "kind ex_new_pdf = Pdf" by (simp add: ex_new_pdf_def)
  have d: "Do ex_big_env ex_new_pdf ''https://example.com/doc.pdf'' \<lparr>files = Map.empty\<rparr> =
        ((Some ErrTooLarge, ex_new_pdf\<lparr>docType := ''pdf'', Url := ''https://example.com/doc.pdf''\<rparr>),
         \<lparr>files = Map.empty\<rparr>)"
    using oversized_document_dropped[OF g s l c f, of ex_new_pdf] by (simp add: k)
  show ?thesis using g s l c f d by (intro conjI)
qed

section \<open>Dispatch by suffix\<close>

lemma getAllUrls_Nil [simp]: "getAllUrls us [] = []"
  by (simp add: getAllUrls_def List.map_filter_simps)

lemma getAllUrls_Cons:
  "getAllUrls us (k # ks) =
     (case urlObjects us k of None \<Rightarrow> getAllUrls us ks | Some u \<Rightarrow> u # getAllUrls us ks)"
  by (simp add: getAllUrls_def List.map_filter_simps split: option.splits)


lemma getAllUrls_keys:
  "us_inv us \<Longrightarrow> set ks \<subseteq> dom (urlObjects us) \<Longrightarrow> map String (getAllUrls us ks) = ks"
proof (induction ks)
  case Nil
  then show ?case by simp
next
  case (Cons k ks)
  then obtain u where u: "urlObjects us k = Some u" by auto
  then have "String u = k" using Cons.prems(1) by (simp add: us_inv_def)
  then show ?case using Cons u by (simp add: getAllUrls_Cons)
qed


lemma dispatched_Nil [simp]: "dispatched ts [] = []"
  by (simp add: dispatched_def List.map_filter_simps)

lemma dispatched_urls: "snd ` set (dispatched ts us) \<subseteq> String ` set us"
  by (induction us) (auto simp: dispatched_def List.map_filter_simps split: option.splits)









lemma ex_storage_reachable: "reachable ex_storage"
  unfolding ex_storage_def by (intro reach_add reach_new)

lemma ex_storage_eq:
  "ex_storage = \<lparr>urlStatus = [''https://example.com/a.html'' \<mapsto> False,
                               ''https://example.com/doc.pdf'' \<mapsto> False],
                  urlObjects = [''https://example.com/a.html'' \<mapsto> ex_page,
                                ''https://example.com/doc.pdf'' \<mapsto> ex_pdf],
                  queue = [''https://example.com/a.html'', ''https://example.com/doc.pdf'']\<rparr>"
  by (simp add: ex_storage_def add_def Let_def newUrlStorage_def)

lemma ex_storage_iterates:
  "iterates (urlObjects ex_storage) [''https://example.com/doc.pdf'', ''https://example.com/a.html'']"
  by (auto simp: ex_storage_eq iterates_def)



lemma HasSuffix_ex [simp]:
  "HasSuffix ''https://example.com/doc.pdf'' ''.pdf''"
  "\<not> HasSuffix ''https://example.com/doc.pdf'' ''.docx''"
  "\<not> HasSuffix ''https://example.com/a.html'' ''.pdf''"
  "\<not> HasSuffix ''https://example.com/a.html'' ''.docx''"
  by (simp_all add: HasSuffix_def)




section \<open>Recording the results\<close>








section \<open>The suffix test and the query\<close>





lemma String_ex_query [simp]:
  "String ex_query = ''https://h/doc.pdf?v=1''"
  "String ex_query_pdf = ''https://h/doc.pdf?f=x.pdf''"
  by (simp_all add: String_def ex_query_def ex_query_pdf_def)




section \<open>The output\<close>

lemma output_loop_rest:
  "output_loop js ds us False buf =
     buf @ concat (map (\<lambda>r. '','' @ js r) (List.map_filter ds (map String us)))"
  by (induction us arbitrary: buf) (simp_all add: List.map_filter_simps split: option.splits)

lemma separated_Cons: "separated (x # xs) = x @ concat (map (\<lambda>y. '','' @ y) xs)"
  by (induction xs arbitrary: x) simp_all

lemma output_loop_first:
  "output_loop js ds us True buf =
     buf @ separated (map js (List.map_filter ds (map String us)))"
proof (induction us)
  case Nil
  then show ?case by (simp add: List.map_filter_simps)
next
  case (Cons u us)
  show ?case
  proof (cases "ds (String u)")
    case None
    then show ?thesis using Cons by (simp add: List.map_filter_simps)
  next
    case (Some rr)
    then show ?thesis
      by (simp add: List.map_filter_simps output_loop_rest separated_Cons comp_def)
  qed
qed

text \<open>
  Claim C7, as stated, has the emitter write the array for every run. When an output file
  is named and cannot be created, \<^verbatim>\<open>output\<close> returns the error of \<^verbatim>\<open>os.Create\<close> and
  writes nothing, not even the opening bracket.
\<close>

theorem output_create_counterexample:
  "tEngine_output ex_env [] (ex_engine\<lparr>outputFileName := ''/missing/out.json''\<rparr>) = Inl ErrCreate"
  by (simp add: tEngine_output_def ex_env_def ex_engine_def)

text \<open>
  Claim C7, amended. Whenever the output goes to the standard output or the output file can
  be created, the bytes written are one JSON array: an opening bracket, then for each URL,
  in the order of the range over the storage, that has a recorded result the JSON encoding of
  that result, with a comma between successive elements, then a closing bracket; with an
  empty result store the output is exactly \<^verbatim>\<open>[]\<close>. When the output file cannot be created
  the error is returned and nothing is written.
\<close>

theorem output_json_array:
  assumes "reachable (urlStorage e)" "iterates (urlObjects (urlStorage e)) ks"
  shows "tEngine_output env ks e =
           (if outputFileName e \<noteq> [] \<and> osCreateFails env (outputFileName e) then Inl ErrCreate
            else Inr (''['' @ separated (map (Marshal env) (List.map_filter (docStorage e) ks)) @ '']''))
       \<and> (docStorage e = Map.empty \<longrightarrow>
            tEngine_output env ks e =
              (if outputFileName e \<noteq> [] \<and> osCreateFails env (outputFileName e) then Inl ErrCreate
               else Inr ''[]''))"
proof -
  have inv: "us_inv (urlStorage e)" using assms(1) by (rule reachable_inv)
  have keys: "map String (getAllUrls (urlStorage e) ks) = ks"
    using getAllUrls_keys[OF inv] assms(2) by (simp add: iterates_def)
  have a: "tEngine_output env ks e =
           (if outputFileName e \<noteq> [] \<and> osCreateFails env (outputFileName e) then Inl ErrCreate
            else Inr (''['' @ separated (map (Marshal env) (List.map_filter (docStorage e) ks)) @ '']''))"
    by (simp add: tEngine_output_def output_loop_first keys)
  have "docStorage e = Map.empty \<Longrightarrow> List.map_filter (docStorage e) ks = []"
    by (induction ks) (simp_all add: List.map_filter_simps)
  then show ?thesis using a by simp
qed

theorem output_json_array_witness:
  "reachable ex_storage
   \<and> iterates (urlObjects ex_storage) [''https://example.com/doc.pdf'', ''https://example.com/a.html'']
   \<and> tEngine_output (ex_env\<lparr>osCreateFails := (\<lambda>name. False)\<rparr>)
        [''https://example.com/doc.pdf'', ''https://example.com/a.html'']
        (ex_engine\<lparr>urlStorage := ex_storage,
                    docStorage := [''https://example.com/doc.pdf'' \<mapsto> ex_done_pdf]\<rparr>)
      = Inr ''[{url:https://example.com/doc.pdf}]''
   \<and> tEngine_output ex_env
        [''https://example.com/doc.pdf'', ''https://example.com/a.html'']
        (ex_engine\<lparr>urlStorage := ex_storage\<rparr>)
      = Inr ''[]''"
proof -
  have r: "reachable (urlStorage (ex_engine\<lparr>urlStorage := ex_storage,
                    docStorage := [''https://example.com/doc.pdf'' \<mapsto> ex_done_pdf]\<rparr>))"
    using ex_storage_reachable by simp
  have i: "iterates (urlObjects (urlStorage (ex_engine\<lparr>urlStorage := ex_storage,
                    docStorage := [''https://example.com/doc.pdf'' \<mapsto> ex_done_pdf]\<rparr>)))
             [''https://example.com/doc.pdf'', ''https://example.com/a.html'']"
    using ex_storage_iterates by simp
  have r2: "reachable (urlStorage (ex_engine\<lparr>urlStorage := ex_storage\<rparr>))"
    using ex_storage_reachable by simp
  have i2: "iterates (urlObjects (urlStorage (ex_engine\<lparr>urlStorage := ex_storage\<rparr>)))
             [''https://example.com/doc.pdf'', ''https://example.com/a.html'']"
    using ex_storage_iterates by simp
  have a: "tEngine_output (ex_env\<lparr>osCreateFails := (\<lambda>name. False)\<rparr>)
        [''https://example.com/doc.pdf'', ''https://example.com/a.html'']
        (ex_engine\<lparr>urlStorage := ex_storage,
                    docStorage := [''https://example.com/doc.pdf'' \<mapsto> ex_done_pdf]\<rparr>)
      = Inr ''[{url:https://example.com/doc.pdf}]''"
    using output_json_array[OF r i, of "ex_env\<lparr>osCreateFails := (\<lambda>name. False)\<rparr>"]
    by (simp add: List.map_filter_simps ex_env_def ex_done_pdf_def)
  have b: "tEngine_output ex_env
        [''https://example.com/doc.pdf'', ''https://example.com/a.html'']
        (ex_engine\<lparr>urlStorage := ex_storage\<rparr>)
      = Inr ''[]''"
    using output_json_array[OF r2 i2, of ex_env]
    by (simp add: ex_engine_def)
  show ?thesis using ex_storage_reachable ex_storage_iterates a b by (intro conjI)
qed

end
